theory Spec2Isabelle
  imports Main "HOL-Library.Word"
begin

section \<open>The linked-list queue of Queue_using_LinkedLIst.cpp\<close>

text \<open>
  The C++ program keeps a singly linked chain of heap nodes (class \<open>LinkedList\<close>) and a
  \<open>Queue\<close> object with three private fields: \<open>frontNode\<close>, \<open>rearNode\<close> and \<open>count\<close>.
  The embedding makes the heap explicit: a node pointer is an address or \<open>nullptr\<close>
  (\<open>None\<close>), the heap maps the live addresses to their nodes, \<open>new\<close> adds a cell and
  \<open>delete\<close> removes one.  Reading or freeing through a pointer to a cell that is not
  live is undefined behaviour in C++ and is a \<open>fault\<close> of the model.  \<open>int\<close> is the
  32-bit two's complement integer of the usual platforms; \<open>count++\<close> and \<open>count--\<close>
  wrap around, as the compiled increment and decrement do (the language standard
  leaves signed overflow undefined).  The text written to \<open>std::cout\<close> is part of the
  state.
\<close>

subsection \<open>Data\<close>

type_synonym addr = nat

type_synonym cint = "32 word"

record LinkedList =
  val :: cint
  "next" :: "addr option"

text \<open>The constructor \<open>LinkedList(int data)\<close>.\<close>

definition LinkedList_ctor :: "cint \<Rightarrow> LinkedList" where
  "LinkedList_ctor data = \<lparr>val = data, next = None\<rparr>"

record Queue =
  frontNode :: "addr option"
  rearNode :: "addr option"
  count :: cint

record state =
  heap :: "addr \<rightharpoonup> LinkedList"
  queue :: Queue
  cout :: string

datatype fault = InvalidPointer

subsection \<open>The member functions\<close>

text \<open>\<open>Queue()\<close>: both pointers null, the counter zero; no node is live and nothing has
  been printed.\<close>

definition Queue_ctor :: state where
  "Queue_ctor =
     \<lparr>heap = Map.empty,
      queue = \<lparr>frontNode = None, rearNode = None, count = 0\<rparr>,
      cout = []\<rparr>"

definition empty_msg :: string where
  "empty_msg = ''Queue is empty'' @ [CHR 0x0A]"

definition front :: "state \<Rightarrow> fault + (cint \<times> state)" where
  "front s =
     (case frontNode (queue s) of
        None \<Rightarrow> Inr (- 1, s\<lparr>cout := cout s @ empty_msg\<rparr>)
      | Some p \<Rightarrow>
          (case heap s p of
             None \<Rightarrow> Inl InvalidPointer
           | Some n \<Rightarrow> Inr (val n, s)))"

definition size_Queue :: "state \<Rightarrow> cint" where
  "size_Queue s = count (queue s)"

definition pop :: "state \<Rightarrow> fault + (cint \<times> state)" where
  "pop s =
     (case frontNode (queue s) of
        None \<Rightarrow> Inr (- 1, s\<lparr>cout := cout s @ empty_msg\<rparr>)
      | Some temp \<Rightarrow>
          (case heap s temp of
             None \<Rightarrow> Inl InvalidPointer
           | Some n \<Rightarrow>
               let data = val n;
                   q1 = (queue s)\<lparr>frontNode := next n\<rparr>;
                   q2 = (if frontNode q1 = None then q1\<lparr>rearNode := None\<rparr> else q1);
                   h' = (heap s)(temp := None);
                   q3 = q2\<lparr>count := count q2 - 1\<rparr>
               in Inr (data, s\<lparr>heap := h', queue := q3\<rparr>)))"

text \<open>\<open>push\<close> calls \<open>new\<close>; the address \<open>newNode\<close> that the allocator hands out is an
  argument of the model.  An allocator returns an address that is not live
  (\<open>heap s newNode = None\<close>); the theorems below assume exactly that and nothing else
  about it, so freed addresses may be handed out again.\<close>

definition push :: "addr \<Rightarrow> cint \<Rightarrow> state \<Rightarrow> fault + state" where
  "push newNode data s =
     (let h1 = (heap s)(newNode \<mapsto> LinkedList_ctor data) in
      case rearNode (queue s) of
        None \<Rightarrow>
          Inr (s\<lparr>heap := h1,
                 queue := (queue s)\<lparr>frontNode := Some newNode, rearNode := Some newNode,
                                    count := count (queue s) + 1\<rparr>\<rparr>)
      | Some r \<Rightarrow>
          (case h1 r of
             None \<Rightarrow> Inl InvalidPointer
           | Some n \<Rightarrow>
               Inr (s\<lparr>heap := h1(r \<mapsto> n\<lparr>next := Some newNode\<rparr>),
                      queue := (queue s)\<lparr>rearNode := Some newNode,
                                         count := count (queue s) + 1\<rparr>\<rparr>)))"

text \<open>\<open>~Queue()\<close>: the loop may in principle run forever (on a cyclic chain), so it is
  a partial function; \<open>None\<close> is divergence.  The second argument collects the addresses
  passed to \<open>delete\<close>, in order.\<close>

partial_function (option) dtor_loop :: "state \<Rightarrow> addr list \<Rightarrow> (fault + (addr list \<times> state)) option" where
  "dtor_loop s released =
     (case frontNode (queue s) of
        None \<Rightarrow> Some (Inr (released, s))
      | Some temp \<Rightarrow>
          (case heap s temp of
             None \<Rightarrow> Some (Inl InvalidPointer)
           | Some n \<Rightarrow>
               dtor_loop (s\<lparr>heap := (heap s)(temp := None),
                            queue := (queue s)\<lparr>frontNode := next n\<rparr>\<rparr>)
                         (released @ [temp])))"

definition Queue_dtor :: "state \<Rightarrow> (fault + (addr list \<times> state)) option" where
  "Queue_dtor s = dtor_loop s []"

subsection \<open>Runs: sequences of calls on one queue\<close>

text \<open>A call of the public interface.  \<open>Push a v\<close> is \<open>push(v)\<close> in which \<open>new\<close> returned
  the address \<open>a\<close>.\<close>

datatype op = Push addr cint | Pop | Front | Size

text \<open>One call: the value it returns (\<open>None\<close> for the \<open>void\<close> of \<open>push\<close>) and the state
  after it.\<close>

fun step :: "op \<Rightarrow> state \<Rightarrow> fault + (cint option \<times> state)" where
  "step (Push a v) s = (case push a v s of Inl e \<Rightarrow> Inl e | Inr s' \<Rightarrow> Inr (None, s'))"
| "step Pop s = (case pop s of Inl e \<Rightarrow> Inl e | Inr (r, s') \<Rightarrow> Inr (Some r, s'))"
| "step Front s = (case front s of Inl e \<Rightarrow> Inl e | Inr (r, s') \<Rightarrow> Inr (Some r, s'))"
| "step Size s = Inr (Some (size_Queue s), s)"

fun exec :: "op list \<Rightarrow> state \<Rightarrow> fault + (cint option list \<times> state)" where
  "exec [] s = Inr ([], s)"
| "exec (c # cs) s =
     (case step c s of
        Inl e \<Rightarrow> Inl e
      | Inr (r, s') \<Rightarrow>
          (case exec cs s' of Inl e \<Rightarrow> Inl e | Inr (rs, t) \<Rightarrow> Inr (r # rs, t)))"

text \<open>The allocator's contract along a run: each address it hands out is not live at
  that moment.\<close>

fun fresh_for :: "op \<Rightarrow> state \<Rightarrow> bool" where
  "fresh_for (Push a v) s = (heap s a = None)"
| "fresh_for Pop s = True"
| "fresh_for Front s = True"
| "fresh_for Size s = True"

fun allocator_ok :: "op list \<Rightarrow> state \<Rightarrow> bool" where
  "allocator_ok [] s = True"
| "allocator_ok (c # cs) s =
     (fresh_for c s \<and> (case step c s of Inl e \<Rightarrow> True | Inr (r, s') \<Rightarrow> allocator_ok cs s'))"

text \<open>Counting the calls of a run: the pushes, and the pops that took the \<open>else\<close> branch
  (\<open>frontNode\<close> was not null).\<close>

fun is_Push :: "op \<Rightarrow> bool" where
  "is_Push (Push a v) = True"
| "is_Push Pop = False"
| "is_Push Front = False"
| "is_Push Size = False"

definition pushes :: "op list \<Rightarrow> nat" where
  "pushes cs = length (filter is_Push cs)"

fun successful_pops :: "op list \<Rightarrow> state \<Rightarrow> nat" where
  "successful_pops [] s = 0"
| "successful_pops (c # cs) s =
     (if c = Pop \<and> frontNode (queue s) \<noteq> None then 1 else 0) +
     (case step c s of Inl e \<Rightarrow> 0 | Inr (r, s') \<Rightarrow> successful_pops cs s')"

subsection \<open>The chain of nodes\<close>

text \<open>\<open>chain h p xs\<close>: starting at pointer \<open>p\<close> and following \<open>next\<close>, the live nodes
  met are at the addresses \<open>map fst xs\<close>, hold the values \<open>map snd xs\<close>, and the last
  \<open>next\<close> is null.\<close>

fun chain :: "(addr \<rightharpoonup> LinkedList) \<Rightarrow> addr option \<Rightarrow> (addr \<times> cint) list \<Rightarrow> bool" where
  "chain h p [] = (p = None)"
| "chain h p ((a, v) # xs) =
     (p = Some a \<and> (case h a of None \<Rightarrow> False | Some n \<Rightarrow> val n = v \<and> chain h (next n) xs))"

text \<open>\<open>follow h p k\<close>: the pointer reached from \<open>p\<close> after \<open>k\<close> \<open>next\<close> links (\<open>None\<close> once the
  chain has ended).\<close>

fun follow :: "(addr \<rightharpoonup> LinkedList) \<Rightarrow> addr option \<Rightarrow> nat \<Rightarrow> addr option" where
  "follow h p 0 = p"
| "follow h p (Suc k) =
     (case p of
        None \<Rightarrow> None
      | Some a \<Rightarrow> (case h a of None \<Rightarrow> None | Some n \<Rightarrow> follow h (next n) k))"

text \<open>The representation invariant: the queue's nodes are the chain \<open>xs\<close> from
  \<open>frontNode\<close>, pairwise distinct and exactly the live cells; \<open>rearNode\<close> is the last
  of them, and \<open>count\<close> is their number as a 32-bit integer.\<close>

definition queue_inv :: "state \<Rightarrow> (addr \<times> cint) list \<Rightarrow> bool" where
  "queue_inv s xs \<longleftrightarrow>
     chain (heap s) (frontNode (queue s)) xs \<and>
     distinct (map fst xs) \<and>
     rearNode (queue s) = (if xs = [] then None else Some (fst (last xs))) \<and>
     count (queue s) = of_nat (length xs) \<and>
     dom (heap s) = set (map fst xs)"

text \<open>A long run used below: \<open>n\<close> calls \<open>push(0)\<close> for which the allocator hands out the
  addresses \<open>0, 1, ..., n - 1\<close>.\<close>

definition push_seq :: "nat \<Rightarrow> op list" where
  "push_seq n = map (\<lambda>a. Push a 0) [0..<n]"

section \<open>The representation invariant is kept by every call\<close>

lemma chain_upd_other:
  "a \<notin> set (map fst xs) \<Longrightarrow> chain (h(a := x)) p xs = chain h p xs"
  by (induction xs arbitrary: p) (auto split: option.splits)

lemma chain_None: "chain h None xs = (xs = [])"
  by (cases xs) auto

lemma chain_last_next:
  "chain h p xs \<Longrightarrow> xs \<noteq> [] \<Longrightarrow> \<exists>n. h (fst (last xs)) = Some n \<and> next n = None \<and> val n = snd (last xs)"
proof (induction xs arbitrary: p)
  case Nil
  then show ?case by simp
next
  case (Cons x xs)
  obtain a v where x: "x = (a, v)" by (cases x)
  from Cons.prems obtain n where n: "h a = Some n" "val n = v" "chain h (next n) xs" "p = Some a"
    by (auto simp: x split: option.splits)
  show ?case
  proof (cases "xs = []")
    case True
    with n show ?thesis by (simp add: x)
  next
    case False
    with Cons.IH [OF n(3)] show ?thesis by simp
  qed
qed

lemma chain_snoc:
  assumes "chain h p xs" "xs \<noteq> []" "distinct (map fst xs)" "a \<notin> set (map fst xs)"
    and "fst (last xs) = r" and hr: "h r = Some n"
    and h': "h' = h(a \<mapsto> \<lparr>val = v, next = None\<rparr>, r \<mapsto> n\<lparr>next := Some a\<rparr>)"
  shows "chain h' p (xs @ [(a, v)])"
  using assms(1-5)
proof (induction xs arbitrary: p)
  case Nil
  then show ?case by simp
next
  case (Cons x xs)
  obtain b w where x: "x = (b, w)" by (cases x)
  from Cons.prems(1) obtain m where m: "h b = Some m" "val m = w" "chain h (next m) xs" "p = Some b"
    by (auto simp: x split: option.splits)
  have ab: "a \<noteq> b" using Cons.prems(4) by (simp add: x)
  show ?case
  proof (cases "xs = []")
    case True
    then have "r = b" using Cons.prems(5) by (simp add: x)
    with True m hr ab show ?thesis by (auto simp: x h')
  next
    case False
    have ne: "b \<noteq> r" using Cons.prems(3,5) False by (auto simp: x)
    have "chain h' (next m) (xs @ [(a, v)])"
      using Cons.IH [OF m(3) False] Cons.prems False by (simp add: x)
    moreover have "h' b = Some m" using ne ab m(1) by (simp add: h')
    ultimately show ?thesis using m by (simp add: x)
  qed
qed


lemma queue_inv_ctor: "queue_inv Queue_ctor []"
  by (simp add: queue_inv_def Queue_ctor_def)

lemma queue_inv_cout: "queue_inv (s\<lparr>cout := c\<rparr>) xs = queue_inv s xs"
  by (simp add: queue_inv_def)

lemma push_inv:
  assumes I: "queue_inv s xs" and fresh: "heap s a = None"
  shows "\<exists>t. push a v s = Inr t \<and> queue_inv t (xs @ [(a, v)]) \<and> cout t = cout s"
proof (cases "xs = []")
  case True
  with I have "rearNode (queue s) = None" "dom (heap s) = {}" "count (queue s) = 0"
    by (simp_all add: queue_inv_def)
  then show ?thesis
    using True by (simp add: push_def queue_inv_def LinkedList_ctor_def)
next
  case False
  define r where "r = fst (last xs)"
  from I False have ch: "chain (heap s) (frontNode (queue s)) xs"
    and d: "distinct (map fst xs)" and rear: "rearNode (queue s) = Some r"
    and c: "count (queue s) = of_nat (length xs)" and dm: "dom (heap s) = set (map fst xs)"
    by (simp_all add: queue_inv_def r_def)
  from chain_last_next [OF ch False] obtain n where n: "heap s r = Some n"
    by (auto simp: r_def)
  have ra: "r \<noteq> a" using n fresh by auto
  have a_notin: "a \<notin> set (map fst xs)" using fresh dm by (metis domIff)
  have r_in: "r \<in> set (map fst xs)" using n dm by (metis domI)
  define h' where "h' = (heap s)(a \<mapsto> \<lparr>val = v, next = None\<rparr>, r \<mapsto> n\<lparr>next := Some a\<rparr>)"
  define t where "t = s\<lparr>heap := h',
      queue := (queue s)\<lparr>rearNode := Some a, count := count (queue s) + 1\<rparr>\<rparr>"
  have p: "push a v s = Inr t"
    using rear n ra by (simp add: push_def t_def h'_def LinkedList_ctor_def)
  have ch': "chain h' (frontNode (queue s)) (xs @ [(a, v)])"
    by (rule chain_snoc [OF ch False d a_notin _ n h'_def]) (simp add: r_def)
  have dm': "dom h' = set (map fst (xs @ [(a, v)]))"
    using dm r_in by (auto simp: h'_def)
  have "queue_inv t (xs @ [(a, v)])"
    using ch' d a_notin dm' c by (simp add: queue_inv_def t_def)
  moreover have "cout t = cout s" by (simp add: t_def)
  ultimately show ?thesis using p by blast
qed

lemma chain_Nil_iff: "chain h p xs \<Longrightarrow> (p = None) = (xs = [])"
  by (cases xs) auto

lemma pop_inv:
  assumes I: "queue_inv s ((a, v) # xs)"
  shows "\<exists>t. pop s = Inr (v, t) \<and> queue_inv t xs \<and> cout t = cout s"
proof -
  from I obtain n where f: "frontNode (queue s) = Some a" and n: "heap s a = Some n"
    and v: "val n = v" and ch: "chain (heap s) (next n) xs"
    by (auto simp: queue_inv_def split: option.splits)
  from I have d: "a \<notin> set (map fst xs)" "distinct (map fst xs)"
    and rear: "xs \<noteq> [] \<Longrightarrow> rearNode (queue s) = Some (fst (last xs))"
    and c: "count (queue s) = of_nat (Suc (length xs))"
    and dm: "dom (heap s) = insert a (set (map fst xs))"
    by (simp_all add: queue_inv_def)
  have e: "(next n = None) = (xs = [])" by (rule chain_Nil_iff [OF ch])
  define t where "t = s\<lparr>heap := (heap s)(a := None),
      queue := \<lparr>frontNode = next n,
                rearNode = (if next n = None then None else rearNode (queue s)),
                count = count (queue s) - 1\<rparr>\<rparr>"
  have p: "pop s = Inr (v, t)"
    using f n v by (simp add: pop_def t_def Let_def)
  have ch': "chain ((heap s)(a := None)) (next n) xs"
    using ch d(1) by (simp add: chain_upd_other)
  have dm': "dom ((heap s)(a := None)) = set (map fst xs)"
    using dm d(1) by auto
  have "queue_inv t xs"
    using ch' d(2) dm' c e rear by (simp add: queue_inv_def t_def)
  moreover have "cout t = cout s" by (simp add: t_def)
  ultimately show ?thesis using p by blast
qed

lemma pop_empty:
  "frontNode (queue s) = None \<Longrightarrow> pop s = Inr (- 1, s\<lparr>cout := cout s @ empty_msg\<rparr>)"
  by (simp add: pop_def)

lemma front_empty:
  "frontNode (queue s) = None \<Longrightarrow> front s = Inr (- 1, s\<lparr>cout := cout s @ empty_msg\<rparr>)"
  by (simp add: front_def)

lemma front_inv:
  "queue_inv s ((a, v) # xs) \<Longrightarrow> front s = Inr (v, s)"
  by (auto simp: queue_inv_def front_def split: option.splits)


lemma step_inv:
  assumes I: "queue_inv s xs" and f: "fresh_for c s"
  shows "\<exists>r t ys. step c s = Inr (r, t) \<and> queue_inv t ys \<and>
           length ys + (if c = Pop \<and> frontNode (queue s) \<noteq> None then 1 else 0)
             = length xs + (if is_Push c then 1 else 0)"
proof (cases c)
  case (Push a v)
  with f have "heap s a = None" by simp
  from push_inv [OF I this, of v] obtain t where
    "push a v s = Inr t" "queue_inv t (xs @ [(a, v)])" by blast
  then have "step c s = Inr (None, t) \<and> queue_inv t (xs @ [(a, v)]) \<and>
      length (xs @ [(a, v)]) + (if c = Pop \<and> frontNode (queue s) \<noteq> None then 1 else 0)
        = length xs + (if is_Push c then 1 else 0)"
    using Push by simp
  then show ?thesis by blast
next
  case Pop
  show ?thesis
  proof (cases xs)
    case Nil
    with I have e: "frontNode (queue s) = None" by (simp add: queue_inv_def)
    have "step c s = Inr (Some (- 1), s\<lparr>cout := cout s @ empty_msg\<rparr>) \<and>
        queue_inv (s\<lparr>cout := cout s @ empty_msg\<rparr>) xs \<and>
        length xs + (if c = Pop \<and> frontNode (queue s) \<noteq> None then 1 else 0)
          = length xs + (if is_Push c then 1 else 0)"
      using I Pop e by (simp add: pop_empty queue_inv_cout)
    then show ?thesis by blast
  next
    case (Cons x ys)
    obtain a v where x: "x = (a, v)" by (cases x)
    from I Cons x have ne: "frontNode (queue s) \<noteq> None" by (auto simp: queue_inv_def)
    from pop_inv [of s a v ys] I Cons x obtain t where
      "pop s = Inr (v, t)" "queue_inv t ys" by auto
    then have "step c s = Inr (Some v, t) \<and> queue_inv t ys \<and>
        length ys + (if c = Pop \<and> frontNode (queue s) \<noteq> None then 1 else 0)
          = length xs + (if is_Push c then 1 else 0)"
      using Pop Cons ne by simp
    then show ?thesis by blast
  qed
next
  case Front
  have "\<exists>r t. front s = Inr (r, t) \<and> queue_inv t xs"
  proof (cases xs)
    case Nil
    with I have e: "frontNode (queue s) = None" by (simp add: queue_inv_def)
    show ?thesis using I e by (simp add: front_empty queue_inv_cout)
  next
    case (Cons x ys)
    obtain a v where x: "x = (a, v)" by (cases x)
    with front_inv [of s a v ys] I Cons show ?thesis by simp
  qed
  then obtain r t where "front s = Inr (r, t)" "queue_inv t xs" by blast
  then have "step c s = Inr (Some r, t) \<and> queue_inv t xs \<and>
      length xs + (if c = Pop \<and> frontNode (queue s) \<noteq> None then 1 else 0)
        = length xs + (if is_Push c then 1 else 0)"
    using Front by simp
  then show ?thesis by blast
next
  case Size
  with I have "step c s = Inr (Some (size_Queue s), s) \<and> queue_inv s xs \<and>
      length xs + (if c = Pop \<and> frontNode (queue s) \<noteq> None then 1 else 0)
        = length xs + (if is_Push c then 1 else 0)"
    by simp
  then show ?thesis by blast
qed

lemma exec_inv:
  "queue_inv s xs \<Longrightarrow> allocator_ok cs s \<Longrightarrow>
     \<exists>rs t ys. exec cs s = Inr (rs, t) \<and> queue_inv t ys \<and>
       length ys + successful_pops cs s = length xs + pushes cs"
proof (induction cs arbitrary: s xs)
  case Nil
  then show ?case by (auto simp: pushes_def)
next
  case (Cons c cs)
  from Cons.prems have f: "fresh_for c s" by simp
  from step_inv [OF Cons.prems(1) f] obtain r t ys where
    st: "step c s = Inr (r, t)" and I: "queue_inv t ys"
    and n: "length ys + (if c = Pop \<and> frontNode (queue s) \<noteq> None then 1 else 0)
             = length xs + (if is_Push c then 1 else 0)"
    by blast
  from Cons.prems st have "allocator_ok cs t" by simp
  from Cons.IH [OF I this] obtain rs u zs where
    ex: "exec cs t = Inr (rs, u)" and J: "queue_inv u zs"
    and m: "length zs + successful_pops cs t = length ys + pushes cs"
    by blast
  have "exec (c # cs) s = Inr (r # rs, u)" using st ex by simp
  moreover have "length zs + successful_pops (c # cs) s = length xs + pushes (c # cs)"
    using n m st by (simp add: pushes_def split: if_splits)
  ultimately show ?case using J by blast
qed

lemma exec_append:
  "exec (cs @ ds) s =
     (case exec cs s of
        Inl e \<Rightarrow> Inl e
      | Inr (rs, t) \<Rightarrow>
          (case exec ds t of Inl e \<Rightarrow> Inl e | Inr (rs', u) \<Rightarrow> Inr (rs @ rs', u)))"
  by (induction cs arbitrary: s) (auto split: sum.splits)

lemma allocator_ok_append:
  "allocator_ok (cs @ ds) s =
     (allocator_ok cs s \<and> (case exec cs s of Inl e \<Rightarrow> True | Inr (rs, t) \<Rightarrow> allocator_ok ds t))"
  by (induction cs arbitrary: s) (auto split: sum.splits)

lemma exec_pushes:
  "queue_inv s xs \<Longrightarrow> allocator_ok (map (case_prod Push) avs) s \<Longrightarrow>
     \<exists>t. exec (map (case_prod Push) avs) s = Inr (replicate (length avs) None, t) \<and>
         queue_inv t (xs @ avs) \<and> cout t = cout s"
proof (induction avs arbitrary: s xs)
  case Nil
  then show ?case by simp
next
  case (Cons x avs)
  obtain a v where x: "x = (a, v)" by (cases x)
  from Cons.prems have "heap s a = None" by (simp add: x)
  from push_inv [OF Cons.prems(1) this, of v] obtain t where
    p: "push a v s = Inr t" and I: "queue_inv t (xs @ [(a, v)])" and c: "cout t = cout s"
    by blast
  from Cons.prems p have "allocator_ok (map (case_prod Push) avs) t" by (simp add: x)
  from Cons.IH [OF I this] p c show ?case by (auto simp: x)
qed

lemma exec_pops:
  "queue_inv s xs \<Longrightarrow>
     \<exists>t. exec (replicate (length xs) Pop) s = Inr (map (Some \<circ> snd) xs, t) \<and>
         queue_inv t [] \<and> cout t = cout s"
proof (induction xs arbitrary: s)
  case Nil
  then show ?case by simp
next
  case (Cons x xs)
  obtain a v where x: "x = (a, v)" by (cases x)
  from pop_inv [of s a v xs] Cons.prems obtain t where
    p: "pop s = Inr (v, t)" and I: "queue_inv t xs" and c: "cout t = cout s"
    by (auto simp: x)
  from Cons.IH [OF I] p c show ?case by (auto simp: x)
qed

lemma allocator_ok_pops: "allocator_ok (replicate n Pop) s"
  by (induction n arbitrary: s) (auto split: sum.splits)


subsection \<open>Runs of pushes, and the 32-bit counter\<close>

lemma allocator_ok_pushes:
  "queue_inv s xs \<Longrightarrow> distinct (map fst avs) \<Longrightarrow> set (map fst avs) \<inter> set (map fst xs) = {} \<Longrightarrow>
     allocator_ok (map (case_prod Push) avs) s"
proof (induction avs arbitrary: s xs)
  case Nil
  then show ?case by simp
next
  case (Cons x avs)
  obtain a v where x: "x = (a, v)" by (cases x)
  from Cons.prems have "a \<notin> dom (heap s)" by (simp add: queue_inv_def x)
  then have fr: "heap s a = None" by auto
  from push_inv [OF Cons.prems(1) fr, of v] obtain t where
    p: "push a v s = Inr t" and I: "queue_inv t (xs @ [(a, v)])" by blast
  have "allocator_ok (map (case_prod Push) avs) t"
    by (rule Cons.IH [OF I]) (use Cons.prems in \<open>auto simp: x\<close>)
  with fr p show ?case by (simp add: x)
qed

lemma allocator_ok_fifo:
  assumes "distinct (map fst avs)"
  shows "allocator_ok (map (case_prod Push) avs @ replicate (length avs) Pop) Queue_ctor"
proof -
  have "allocator_ok (map (case_prod Push) avs) Queue_ctor"
    by (rule allocator_ok_pushes [OF queue_inv_ctor assms]) simp
  then show ?thesis
    by (simp add: allocator_ok_append allocator_ok_pops split: sum.splits)
qed

lemma push_seq_alt: "push_seq n = map (case_prod Push) (map (\<lambda>a. (a, 0)) [0..<n])"
  by (simp add: push_seq_def)

lemma push_seq_ok: "allocator_ok (push_seq n) Queue_ctor"
  unfolding push_seq_alt
  by (rule allocator_ok_pushes [OF queue_inv_ctor]) (simp_all add: comp_def)

lemma push_seq_exec:
  "\<exists>t. exec (push_seq n) Queue_ctor = Inr (replicate n None, t) \<and>
       queue_inv t (map (\<lambda>a. (a, 0)) [0..<n])"
proof -
  have ok: "allocator_ok (map (case_prod Push) (map (\<lambda>a. (a, 0)) [0..<n])) Queue_ctor"
    using push_seq_ok [of n] by (simp only: push_seq_alt)
  from exec_pushes [OF queue_inv_ctor ok] show ?thesis
    by (auto simp: push_seq_alt)
qed

lemma pushes_push_seq: "pushes (push_seq n) = n"
  by (simp add: pushes_def push_seq_def filter_map comp_def)

lemma successful_pops_pushes:
  "successful_pops (map (case_prod Push) avs) s = 0"
  by (induction avs arbitrary: s) (auto split: sum.splits)

lemma successful_pops_push_seq: "successful_pops (push_seq n) s = 0"
  by (simp only: push_seq_alt successful_pops_pushes)

lemma push_seq_state:
  assumes "0 < n"
  shows "\<exists>t. exec (push_seq n) Queue_ctor = Inr (replicate n None, t) \<and>
       frontNode (queue t) = Some 0 \<and> rearNode (queue t) = Some (n - 1) \<and>
       count (queue t) = of_nat n"
proof -
  from push_seq_exec [of n] obtain t where
    e: "exec (push_seq n) Queue_ctor = Inr (replicate n None, t)"
    and I: "queue_inv t (map (\<lambda>a. (a, 0)) [0..<n])" by blast
  have u: "[0..<n] = 0 # [1..<n]" using assms by (simp add: upt_rec)
  have l: "last (map (\<lambda>a. (a, 0::cint)) [0..<n]) = (n - 1, 0)"
    using assms by (cases n) (simp_all add: last_map)
  from I have "frontNode (queue t) = Some 0" by (simp add: queue_inv_def u)
  moreover from I assms have "rearNode (queue t) = Some (n - 1)"
    by (simp add: queue_inv_def l)
  moreover from I have "count (queue t) = of_nat n" by (simp add: queue_inv_def)
  ultimately show ?thesis using e by blast
qed

lemma sint_small: "n < 2 ^ 31 \<Longrightarrow> sint (of_nat n :: cint) = int n"
  by (simp add: signed_of_nat signed_take_bit_int_eq_self)

lemma count_zero_iff: "(of_nat n :: cint) = 0 \<longleftrightarrow> 2 ^ 32 dvd n"
  by (simp add: word_of_nat_eq_0_iff)

lemma count_zero_small: "n < 2 ^ 32 \<Longrightarrow> (of_nat n :: cint) = 0 \<longleftrightarrow> n = 0"
  by (auto simp: count_zero_iff dest: dvd_imp_le)

lemma chain_follow:
  "chain h p xs \<Longrightarrow> k < length xs \<Longrightarrow> follow h p k = Some (fst (xs ! k))"
proof (induction xs arbitrary: p k)
  case Nil
  then show ?case by simp
next
  case (Cons x xs)
  obtain a v where x: "x = (a, v)" by (cases x)
  from Cons.prems(1) obtain n where n: "p = Some a" "h a = Some n" "chain h (next n) xs"
    by (auto simp: x split: option.splits)
  show ?case
  proof (cases k)
    case 0
    with n show ?thesis by (simp add: x)
  next
    case (Suc j)
    with Cons.prems(2) have "j < length xs" by simp
    from Cons.IH [OF n(3) this] n Suc show ?thesis by simp
  qed
qed

text \<open>What the invariant says about a state, in the terms of the claims.\<close>

lemma queue_inv_facts:
  assumes I: "queue_inv s xs"
  shows "(frontNode (queue s) = None) = (xs = [])"
    and "(rearNode (queue s) = None) = (xs = [])"
    and "count (queue s) = of_nat (length xs)"
    and "xs \<noteq> [] \<Longrightarrow> follow (heap s) (frontNode (queue s)) (length xs - 1) = rearNode (queue s)"
    and "xs \<noteq> [] \<Longrightarrow> \<exists>r n. rearNode (queue s) = Some r \<and> heap s r = Some n \<and> next n = None"
    and "k < length xs - 1 \<Longrightarrow> follow (heap s) (frontNode (queue s)) k \<noteq> rearNode (queue s)"
proof -
  from I have ch: "chain (heap s) (frontNode (queue s)) xs"
    and d: "distinct (map fst xs)"
    and rear: "rearNode (queue s) = (if xs = [] then None else Some (fst (last xs)))"
    and c: "count (queue s) = of_nat (length xs)"
    by (simp_all add: queue_inv_def)
  show "(frontNode (queue s) = None) = (xs = [])" by (rule chain_Nil_iff [OF ch])
  show "(rearNode (queue s) = None) = (xs = [])" using rear by simp
  show "count (queue s) = of_nat (length xs)" by (rule c)
  show "follow (heap s) (frontNode (queue s)) (length xs - 1) = rearNode (queue s)" if "xs \<noteq> []"
    using chain_follow [OF ch, of "length xs - 1"] that rear by (simp add: last_conv_nth)
  show "\<exists>r n. rearNode (queue s) = Some r \<and> heap s r = Some n \<and> next n = None" if "xs \<noteq> []"
    using chain_last_next [OF ch that] rear that by auto
  show "follow (heap s) (frontNode (queue s)) k \<noteq> rearNode (queue s)" if k: "k < length xs - 1"
  proof -
    from k have ne: "xs \<noteq> []" and k': "k < length xs" by auto
    have "fst (xs ! k) \<noteq> fst (xs ! (length xs - 1))"
      using d k k' by (simp add: distinct_conv_nth)
    then show ?thesis
      using chain_follow [OF ch k'] rear ne by (simp add: last_conv_nth)
  qed
qed

lemma run_inv:
  assumes "allocator_ok cs Queue_ctor"
  shows "\<exists>rs t xs. exec cs Queue_ctor = Inr (rs, t) \<and> queue_inv t xs \<and>
           successful_pops cs Queue_ctor \<le> pushes cs \<and>
           length xs = pushes cs - successful_pops cs Queue_ctor"
proof -
  from exec_inv [OF queue_inv_ctor assms] obtain rs t xs where
    "exec cs Queue_ctor = Inr (rs, t)" "queue_inv t xs"
    "length xs + successful_pops cs Queue_ctor = length ([] :: (addr \<times> cint) list) + pushes cs"
    by blast
  then have "exec cs Queue_ctor = Inr (rs, t) \<and> queue_inv t xs \<and>
           successful_pops cs Queue_ctor \<le> pushes cs \<and>
           length xs = pushes cs - successful_pops cs Queue_ctor"
    by simp
  then show ?thesis by blast
qed


subsection \<open>The destructor, the head node, repeated \<open>front\<close>\<close>

lemma chain_unique: "chain h p xs \<Longrightarrow> chain h p ys \<Longrightarrow> xs = ys"
proof (induction xs arbitrary: p ys)
  case Nil
  then show ?case by (simp add: chain_None)
next
  case (Cons x xs)
  obtain a v where x: "x = (a, v)" by (cases x)
  from Cons.prems(1) obtain n where n: "p = Some a" "h a = Some n" "val n = v" "chain h (next n) xs"
    by (auto simp: x split: option.splits)
  from Cons.prems(2) n(1) obtain y zs where ys: "ys = y # zs"
    by (cases ys) auto
  obtain b w where y: "y = (b, w)" by (cases y)
  from Cons.prems(2) n have "b = a" "w = v" "chain h (next n) zs"
    by (auto simp: ys y)
  with Cons.IH [OF n(4)] show ?case by (simp add: x ys y)
qed

lemma dtor_loop_chain:
  "chain (heap s) (frontNode (queue s)) xs \<Longrightarrow> distinct (map fst xs) \<Longrightarrow>
     \<exists>t. dtor_loop s acc = Some (Inr (acc @ map fst xs, t)) \<and>
         heap t = (\<lambda>a. if a \<in> set (map fst xs) then None else heap s a) \<and>
         frontNode (queue t) = None \<and> cout t = cout s"
proof (induction xs arbitrary: s acc)
  case Nil
  then have "frontNode (queue s) = None" by simp
  then show ?case by (subst dtor_loop.simps) simp
next
  case (Cons x xs)
  obtain a v where x: "x = (a, v)" by (cases x)
  from Cons.prems(1) obtain n where f: "frontNode (queue s) = Some a"
    and n: "heap s a = Some n" and ch: "chain (heap s) (next n) xs"
    by (auto simp: x split: option.splits)
  from Cons.prems(2) have d: "a \<notin> set (map fst xs)" "distinct (map fst xs)"
    by (simp_all add: x)
  define s' where "s' = s\<lparr>heap := (heap s)(a := None),
                            queue := (queue s)\<lparr>frontNode := next n\<rparr>\<rparr>"
  have ch': "chain (heap s') (frontNode (queue s')) xs"
    using ch d(1) by (simp add: s'_def chain_upd_other)
  from Cons.IH [OF ch' d(2), of "acc @ [a]"] obtain t where
    t: "dtor_loop s' (acc @ [a]) = Some (Inr ((acc @ [a]) @ map fst xs, t))"
      "heap t = (\<lambda>b. if b \<in> set (map fst xs) then None else heap s' b)"
      "frontNode (queue t) = None" "cout t = cout s'"
    by blast
  have "dtor_loop s acc = dtor_loop s' (acc @ [a])"
    by (subst dtor_loop.simps) (simp add: f n s'_def)
  moreover have "heap t = (\<lambda>b. if b \<in> set (map fst (x # xs)) then None else heap s b)"
    using t(2) by (auto simp: s'_def x)
  moreover have "cout t = cout s" using t(4) by (simp add: s'_def)
  ultimately show ?case using t(1,3) by (simp add: x)
qed

lemma queue_inv_head:
  assumes I: "queue_inv s xs" and ne: "frontNode (queue s) \<noteq> None"
  shows "\<exists>p n ys. xs = (p, val n) # ys \<and> frontNode (queue s) = Some p \<and> heap s p = Some n \<and>
           ((next n = None) = (ys = []))"
proof -
  from I have ch: "chain (heap s) (frontNode (queue s)) xs" by (simp add: queue_inv_def)
  with ne obtain x ys where xs: "xs = x # ys" by (cases xs) auto
  obtain p v where x: "x = (p, v)" by (cases x)
  from ch obtain n where "frontNode (queue s) = Some p" "heap s p = Some n" "val n = v"
    "chain (heap s) (next n) ys"
    by (auto simp: xs x split: option.splits)
  then show ?thesis using chain_Nil_iff [of "heap s" "next n" ys] by (auto simp: xs x)
qed

lemma exec_fronts:
  assumes "front s = Inr (v, s)"
  shows "exec (replicate k Front @ cs) s =
           (case exec cs s of Inl e \<Rightarrow> Inl e | Inr (rs, u) \<Rightarrow> Inr (replicate k (Some v) @ rs, u))"
  using assms by (induction k) (auto split: sum.splits)

text \<open>The calls of the program's \<open>main\<close>, with the values its comments expect
  (front 10, size 3, pop 10, front 20, size 2).\<close>

lemma main_outputs:
  "\<exists>t. exec [Push 1 10, Push 2 20, Push 3 30, Front, Size, Pop, Front, Size] Queue_ctor =
     Inr ([None, None, None, Some 10, Some 3, Some 10, Some 20, Some 2], t) \<and>
     cout t = []"
  by (simp add: push_def pop_def front_def size_Queue_def Queue_ctor_def LinkedList_ctor_def Let_def)

subsection \<open>The counter across a pop\<close>

lemma sint_dec:
  assumes "c \<noteq> (- 2147483648 :: cint)"
  shows "sint (c - 1) = sint c - 1"
proof -
  have "sint c \<noteq> - 2147483648"
  proof
    assume "sint c = - 2147483648"
    then have "word_of_int (sint c) = (word_of_int (- 2147483648) :: cint)" by simp
    then have "c = - 2147483648" by simp
    with assms show False by simp
  qed
  moreover have "- 2147483648 \<le> sint c" using sint_ge [of c] by simp
  moreover have "sint c < 2147483648" using sint_lt [of c] by simp
  ultimately have "- (2 ^ 31) \<le> sint c - 1" "sint c - 1 < 2 ^ 31" by simp_all
  then have "signed_take_bit 31 (sint c - 1) = sint c - 1"
    by (rule signed_take_bit_int_eq_self)
  then show ?thesis by (simp add: sint_word_diff)
qed

lemma push_seq_pop:
  assumes "0 < n"
  shows "\<exists>t t'. exec (push_seq n) Queue_ctor = Inr (replicate n None, t) \<and>
           frontNode (queue t) = Some 0 \<and> count (queue t) = of_nat n \<and>
           pop t = Inr (0, t') \<and> count (queue t') = of_nat (n - 1)"
proof -
  from push_seq_exec [of n] obtain t where
    e: "exec (push_seq n) Queue_ctor = Inr (replicate n None, t)"
    and I: "queue_inv t (map (\<lambda>a. (a, 0)) [0..<n])" by blast
  have u: "map (\<lambda>a. (a, 0 :: cint)) [0..<n] = (0, 0) # map (\<lambda>a. (a, 0)) [1..<n]"
    using assms by (simp add: upt_rec)
  from I have c: "count (queue t) = of_nat n" by (simp add: queue_inv_def)
  from I have "chain (heap t) (frontNode (queue t)) ((0, 0) # map (\<lambda>a. (a, 0)) [1..<n])"
    unfolding u by (simp only: queue_inv_def)
  then have f: "frontNode (queue t) = Some 0" by simp
  from pop_inv [of t 0 0 "map (\<lambda>a. (a, 0)) [1..<n]"] I obtain t' where
    p: "pop t = Inr (0, t')" and J: "queue_inv t' (map (\<lambda>a. (a, 0)) [1..<n])"
    unfolding u by blast
  from J have "count (queue t') = of_nat (n - 1)" by (simp add: queue_inv_def)
  with e f c p show ?thesis by blast
qed

section \<open>The claims\<close>

text \<open>
  C1 (FIFO order).  Start from the freshly constructed queue, push the values
  \<open>v1, ..., vn\<close> (the allocator handing out any addresses that respect its contract) and
  then call \<open>pop\<close> \<open>n\<close> times: the run does not fault, the \<open>n\<close> pops return exactly
  \<open>v1, ..., vn\<close> in that order, and the queue is again the freshly constructed one.
\<close>

theorem fifo_order:
  assumes "allocator_ok (map (case_prod Push) avs @ replicate (length avs) Pop) Queue_ctor"
  shows "exec (map (case_prod Push) avs @ replicate (length avs) Pop) Queue_ctor =
           Inr (replicate (length avs) None @ map (Some \<circ> snd) avs, Queue_ctor)"
proof -
  from assms have ok: "allocator_ok (map (case_prod Push) avs) Queue_ctor"
    by (simp add: allocator_ok_append)
  from exec_pushes [OF queue_inv_ctor ok] obtain t where
    e1: "exec (map (case_prod Push) avs) Queue_ctor = Inr (replicate (length avs) None, t)"
    and I: "queue_inv t avs" and c1: "cout t = cout Queue_ctor"
    by auto
  from exec_pops [OF I] obtain u where
    e2: "exec (replicate (length avs) Pop) t = Inr (map (Some \<circ> snd) avs, u)"
    and J: "queue_inv u []" and c2: "cout u = cout t"
    by blast
  from J have "heap u = Map.empty" "queue u = queue Queue_ctor"
    by (simp_all add: queue_inv_def Queue_ctor_def)
  with c1 c2 have "u = Queue_ctor"
    by (intro state.equality) (simp_all add: Queue_ctor_def)
  with e1 e2 show ?thesis by (simp add: exec_append)
qed

theorem fifo_order_witness:
  "allocator_ok [Push 1 10, Push 2 20, Push 3 30, Pop, Pop, Pop] Queue_ctor \<and>
   exec [Push 1 10, Push 2 20, Push 3 30, Pop, Pop, Pop] Queue_ctor =
     Inr ([None, None, None, Some 10, Some 20, Some 30], Queue_ctor)"
proof -
  have ok: "allocator_ok (map (case_prod Push) [(1, 10), (2, 20), (3, 30)] @
              replicate (length [(1 :: nat, 10 :: cint), (2, 20), (3, 30)]) Pop) Queue_ctor"
    by (simp add: push_def pop_def Queue_ctor_def LinkedList_ctor_def Let_def)
  from fifo_order [OF ok] ok show ?thesis by (simp add: numeral_3_eq_3)
qed

text \<open>
  C2 (empty queue: the error is a distinguishable result), as amended.  On every queue
  that holds no element (as many successful pops as pushes), \<open>pop()\<close> and \<open>front()\<close> do
  not fail: each appends the line "Queue is empty" to the standard output and returns
  the integer \<open>-1\<close>, a value of the element type; nothing else changes.
\<close>

theorem empty_returns_sentinel:
  assumes "allocator_ok cs Queue_ctor"
    and "pushes cs = successful_pops cs Queue_ctor"
  shows "\<exists>rs t. exec cs Queue_ctor = Inr (rs, t) \<and>
           pop t = Inr (- 1, t\<lparr>cout := cout t @ empty_msg\<rparr>) \<and>
           front t = Inr (- 1, t\<lparr>cout := cout t @ empty_msg\<rparr>)"
proof -
  from run_inv [OF assms(1)] obtain rs t xs where
    e: "exec cs Queue_ctor = Inr (rs, t)" and I: "queue_inv t xs"
    and len: "length xs = pushes cs - successful_pops cs Queue_ctor"
    by blast
  from len assms(2) have "xs = []" by simp
  with queue_inv_facts(1) [OF I] have "frontNode (queue t) = None" by simp
  with e show ?thesis by (simp add: pop_empty front_empty)
qed

theorem empty_returns_sentinel_witness:
  "allocator_ok [Push 1 10, Pop] Queue_ctor \<and>
   pushes [Push 1 10, Pop] = successful_pops [Push 1 10, Pop] Queue_ctor \<and>
   exec [Push 1 10, Pop, Pop, Front] Queue_ctor =
     Inr ([None, Some 10, Some (- 1), Some (- 1)], Queue_ctor\<lparr>cout := empty_msg @ empty_msg\<rparr>)"
proof -
  let ?cs = "[Push 1 10, Pop]"
  have ok: "allocator_ok ?cs Queue_ctor"
    by (simp add: push_def pop_def Queue_ctor_def LinkedList_ctor_def Let_def)
  have eq: "pushes ?cs = successful_pops ?cs Queue_ctor"
    by (simp add: pushes_def push_def pop_def Queue_ctor_def LinkedList_ctor_def Let_def)
  from empty_returns_sentinel [OF ok eq] obtain rs t where
    e: "exec ?cs Queue_ctor = Inr (rs, t)"
    and p: "pop t = Inr (- 1, t\<lparr>cout := cout t @ empty_msg\<rparr>)"
    by (elim exE conjE) (rule that)
  from e have t: "t = Queue_ctor"
    by (auto simp: push_def pop_def Queue_ctor_def LinkedList_ctor_def Let_def)
  have "exec [Push 1 10, Pop, Pop, Front] Queue_ctor = exec (?cs @ [Pop, Front]) Queue_ctor"
    by simp
  also have "\<dots> = Inr ([None, Some 10, Some (- 1), Some (- 1)], Queue_ctor\<lparr>cout := empty_msg @ empty_msg\<rparr>)"
    using e p unfolding exec_append t
    by (auto simp: push_def pop_def front_def Queue_ctor_def LinkedList_ctor_def Let_def)
  finally show ?thesis using ok eq by blast
qed

text \<open>
  The claim as stated fails on the freshly constructed queue: \<open>pop()\<close> and \<open>front()\<close>
  return the \<open>int\<close> \<open>-1\<close>, exactly what they return on a queue whose only element is \<open>-1\<close>.
\<close>

theorem empty_not_distinguishable_counterexample:
  "pop Queue_ctor = Inr (- 1, Queue_ctor\<lparr>cout := empty_msg\<rparr>) \<and>
   front Queue_ctor = Inr (- 1, Queue_ctor\<lparr>cout := empty_msg\<rparr>) \<and>
   exec [Push 0 (- 1), Front, Pop] Queue_ctor = Inr ([None, Some (- 1), Some (- 1)], Queue_ctor)"
  by (simp add: push_def pop_def front_def Queue_ctor_def LinkedList_ctor_def Let_def)

text \<open>
  C3 (size accounting), as amended.  After every run of pushes and pops (and \<open>front\<close>,
  \<open>size\<close>) on a freshly constructed queue, the run has not faulted, the successful
  pops are at most the pushes, and \<open>size()\<close> is the number of pushes minus the number of
  successful pops reduced to a 32-bit \<open>int\<close>.  Whenever that number is at most
  \<open>2^31 - 1\<close>, \<open>size()\<close> equals it exactly and is not negative.
\<close>

theorem size_accounting:
  assumes "allocator_ok cs Queue_ctor"
  shows "\<exists>rs t. exec cs Queue_ctor = Inr (rs, t) \<and>
           successful_pops cs Queue_ctor \<le> pushes cs \<and>
           size_Queue t = of_nat (pushes cs - successful_pops cs Queue_ctor) \<and>
           (pushes cs - successful_pops cs Queue_ctor < 2 ^ 31 \<longrightarrow>
              sint (size_Queue t) = int (pushes cs) - int (successful_pops cs Queue_ctor) \<and>
              0 \<le> sint (size_Queue t))"
proof -
  from run_inv [OF assms] obtain rs t xs where
    e: "exec cs Queue_ctor = Inr (rs, t)" and I: "queue_inv t xs"
    and le: "successful_pops cs Queue_ctor \<le> pushes cs"
    and len: "length xs = pushes cs - successful_pops cs Queue_ctor"
    by blast
  have c: "size_Queue t = of_nat (pushes cs - successful_pops cs Queue_ctor)"
    using queue_inv_facts(3) [OF I] len by (simp add: size_Queue_def)
  have "sint (size_Queue t) = int (pushes cs) - int (successful_pops cs Queue_ctor) \<and>
        0 \<le> sint (size_Queue t)"
    if "pushes cs - successful_pops cs Queue_ctor < 2 ^ 31"
    using sint_small [OF that] c le by simp
  with e le c show ?thesis by blast
qed

theorem size_accounting_witness:
  "allocator_ok [Push 1 10, Push 2 20, Push 3 30, Pop, Pop, Pop, Pop, Push 1 40] Queue_ctor \<and>
   pushes [Push 1 10, Push 2 20, Push 3 30, Pop, Pop, Pop, Pop, Push 1 40] = 4 \<and>
   successful_pops [Push 1 10, Push 2 20, Push 3 30, Pop, Pop, Pop, Pop, Push 1 40] Queue_ctor = 3 \<and>
   (\<exists>rs t. exec [Push 1 10, Push 2 20, Push 3 30, Pop, Pop, Pop, Pop, Push 1 40] Queue_ctor = Inr (rs, t) \<and>
      sint (size_Queue t) = 1)"
proof -
  let ?cs = "[Push 1 10, Push 2 20, Push 3 30, Pop, Pop, Pop, Pop, Push 1 40]"
  have ok: "allocator_ok ?cs Queue_ctor"
    by (simp add: push_def pop_def Queue_ctor_def LinkedList_ctor_def Let_def)
  have p: "pushes ?cs = 4" by (simp add: pushes_def)
  have q: "successful_pops ?cs Queue_ctor = 3"
    by (simp add: push_def pop_def Queue_ctor_def LinkedList_ctor_def Let_def)
  from size_accounting [OF ok] p q ok show ?thesis by auto
qed

text \<open>
  The bound is needed: after \<open>2^31\<close> pushes and no pop, \<open>size()\<close> is \<open>-2^31\<close>.
\<close>

theorem size_accounting_counterexample:
  "allocator_ok (push_seq 2147483648) Queue_ctor \<and>
   pushes (push_seq 2147483648) = 2147483648 \<and>
   successful_pops (push_seq 2147483648) Queue_ctor = 0 \<and>
   (\<exists>rs t. exec (push_seq 2147483648) Queue_ctor = Inr (rs, t) \<and>
      sint (size_Queue t) = - 2147483648)"
proof -
  from push_seq_state [of 2147483648] obtain t where
    "exec (push_seq 2147483648) Queue_ctor = Inr (replicate 2147483648 None, t)"
    "count (queue t) = of_nat 2147483648" by auto
  then have "\<exists>rs t. exec (push_seq 2147483648) Queue_ctor = Inr (rs, t) \<and>
      sint (size_Queue t) = - 2147483648"
    by (simp add: size_Queue_def)
  then show ?thesis
    by (simp only: push_seq_ok pushes_push_seq successful_pops_push_seq simp_thms)
qed

text \<open>
  C4 (emptiness invariant), as amended.  In every state reached from the freshly
  constructed queue by push/pop/front/size calls, \<open>frontNode\<close> is null iff \<open>rearNode\<close> is
  null iff the queue holds no element, and then \<open>count\<close> is \<open>0\<close>.  \<open>count == 0\<close> holds
  iff the number of elements held is a multiple of \<open>2^32\<close>; so as long as fewer than
  \<open>2^32\<close> elements are held, \<open>count == 0\<close> iff \<open>frontNode\<close> is null.
\<close>

theorem emptiness_invariant:
  assumes "allocator_ok cs Queue_ctor"
  shows "\<exists>rs t. exec cs Queue_ctor = Inr (rs, t) \<and>
           (frontNode (queue t) = None \<longleftrightarrow> rearNode (queue t) = None) \<and>
           (frontNode (queue t) = None \<longleftrightarrow> pushes cs = successful_pops cs Queue_ctor) \<and>
           (frontNode (queue t) = None \<longrightarrow> count (queue t) = 0) \<and>
           (count (queue t) = 0 \<longleftrightarrow> 2 ^ 32 dvd (pushes cs - successful_pops cs Queue_ctor)) \<and>
           (pushes cs - successful_pops cs Queue_ctor < 2 ^ 32 \<longrightarrow>
              (count (queue t) = 0 \<longleftrightarrow> frontNode (queue t) = None))"
proof -
  from run_inv [OF assms] obtain rs t xs where
    e: "exec cs Queue_ctor = Inr (rs, t)" and I: "queue_inv t xs"
    and le: "successful_pops cs Queue_ctor \<le> pushes cs"
    and len: "length xs = pushes cs - successful_pops cs Queue_ctor"
    by blast
  note f = queue_inv_facts(1-3) [OF I]
  have 1: "frontNode (queue t) = None \<longleftrightarrow> rearNode (queue t) = None"
    using f by simp
  have 2: "frontNode (queue t) = None \<longleftrightarrow> pushes cs = successful_pops cs Queue_ctor"
    using f(1) len le by auto
  have 3: "frontNode (queue t) = None \<longrightarrow> count (queue t) = 0"
    using f by simp
  have 4: "count (queue t) = 0 \<longleftrightarrow> 2 ^ 32 dvd (pushes cs - successful_pops cs Queue_ctor)"
    using f(3) len by (simp add: count_zero_iff)
  have 5: "pushes cs - successful_pops cs Queue_ctor < 2 ^ 32 \<longrightarrow>
              (count (queue t) = 0 \<longleftrightarrow> frontNode (queue t) = None)"
  proof
    assume "pushes cs - successful_pops cs Queue_ctor < 2 ^ 32"
    then have "length xs < 2 ^ 32" using len by simp
    from count_zero_small [OF this] f(1,3)
    show "count (queue t) = 0 \<longleftrightarrow> frontNode (queue t) = None" by simp
  qed
  show ?thesis
    by (intro exI [of _ rs] exI [of _ t] conjI e 1 2 3 4 5)
qed

theorem emptiness_invariant_witness:
  "allocator_ok [Push 1 10, Front, Size, Pop, Pop] Queue_ctor \<and>
   (\<exists>rs t. exec [Push 1 10, Front, Size, Pop, Pop] Queue_ctor = Inr (rs, t) \<and>
      frontNode (queue t) = None \<and> rearNode (queue t) = None \<and> count (queue t) = 0)"
proof -
  let ?cs = "[Push 1 10, Front, Size, Pop, Pop]"
  have ok: "allocator_ok ?cs Queue_ctor"
    by (simp add: push_def pop_def front_def Queue_ctor_def LinkedList_ctor_def Let_def)
  have p: "pushes ?cs = 1" by (simp add: pushes_def)
  have q: "successful_pops ?cs Queue_ctor = 1"
    by (simp add: push_def pop_def front_def Queue_ctor_def LinkedList_ctor_def Let_def)
  from emptiness_invariant [OF ok] obtain rs t where
    "exec ?cs Queue_ctor = Inr (rs, t)" "frontNode (queue t) = None"
    "rearNode (queue t) = None" "count (queue t) = 0"
    unfolding p q by auto
  with ok show ?thesis by blast
qed

text \<open>
  The bound is needed: after \<open>2^32\<close> pushes and no pop, \<open>count\<close> is \<open>0\<close> while
  \<open>frontNode\<close> and \<open>rearNode\<close> are not null.
\<close>

theorem emptiness_invariant_counterexample:
  "allocator_ok (push_seq 4294967296) Queue_ctor \<and>
   (\<exists>rs t. exec (push_seq 4294967296) Queue_ctor = Inr (rs, t) \<and>
      count (queue t) = 0 \<and> frontNode (queue t) = Some 0 \<and>
      rearNode (queue t) = Some 4294967295)"
proof -
  from push_seq_state [of 4294967296] obtain t where
    "exec (push_seq 4294967296) Queue_ctor = Inr (replicate 4294967296 None, t)"
    "count (queue t) = of_nat 4294967296" "frontNode (queue t) = Some 0"
    "rearNode (queue t) = Some (4294967296 - 1)" by auto
  then have "\<exists>rs t. exec (push_seq 4294967296) Queue_ctor = Inr (rs, t) \<and>
      count (queue t) = 0 \<and> frontNode (queue t) = Some 0 \<and>
      rearNode (queue t) = Some 4294967295"
    by simp
  then show ?thesis
    by (simp only: push_seq_ok simp_thms)
qed


text \<open>
  C5 (chain structure), as amended.  In every state reached from the freshly
  constructed queue that holds at most \<open>2^31 - 1\<close> elements and has \<open>count > 0\<close>:
  following \<open>next\<close> from \<open>frontNode\<close> reaches \<open>rearNode\<close> after exactly \<open>count - 1\<close> steps
  (and not earlier), and the node at \<open>rearNode\<close> has a null \<open>next\<close>.
\<close>

theorem chain_structure:
  assumes "allocator_ok cs Queue_ctor"
  shows "\<exists>rs t. exec cs Queue_ctor = Inr (rs, t) \<and>
           (0 <s count (queue t) \<and> pushes cs - successful_pops cs Queue_ctor < 2 ^ 31 \<longrightarrow>
              follow (heap t) (frontNode (queue t)) (nat (sint (count (queue t))) - 1)
                = rearNode (queue t) \<and>
              (\<exists>r n. rearNode (queue t) = Some r \<and> heap t r = Some n \<and> next n = None) \<and>
              (\<forall>k < nat (sint (count (queue t))) - 1.
                 follow (heap t) (frontNode (queue t)) k \<noteq> rearNode (queue t)))"
proof -
  from run_inv [OF assms] obtain rs t xs where
    e: "exec cs Queue_ctor = Inr (rs, t)" and I: "queue_inv t xs"
    and len: "length xs = pushes cs - successful_pops cs Queue_ctor"
    by blast
  note f = queue_inv_facts [OF I]
  have "follow (heap t) (frontNode (queue t)) (nat (sint (count (queue t))) - 1)
                = rearNode (queue t) \<and>
        (\<exists>r n. rearNode (queue t) = Some r \<and> heap t r = Some n \<and> next n = None) \<and>
        (\<forall>k < nat (sint (count (queue t))) - 1.
           follow (heap t) (frontNode (queue t)) k \<noteq> rearNode (queue t))"
    if pos: "0 <s count (queue t)" and small: "pushes cs - successful_pops cs Queue_ctor < 2 ^ 31"
  proof -
    from small len have "length xs < 2 ^ 31" by simp
    from sint_small [OF this] f(3) have s: "sint (count (queue t)) = int (length xs)" by simp
    with pos have ne: "xs \<noteq> []" by (auto simp: word_sless_alt)
    from s have n: "nat (sint (count (queue t))) = length xs" by simp
    show ?thesis unfolding n using f(4) [OF ne] f(5) [OF ne] f(6) by blast
  qed
  with e show ?thesis by blast
qed

theorem chain_structure_witness:
  "allocator_ok [Push 1 10, Push 2 20, Push 3 30, Pop] Queue_ctor \<and>
   (\<exists>rs t. exec [Push 1 10, Push 2 20, Push 3 30, Pop] Queue_ctor = Inr (rs, t) \<and>
      count (queue t) = 2 \<and> follow (heap t) (frontNode (queue t)) 1 = rearNode (queue t) \<and>
      follow (heap t) (frontNode (queue t)) 0 \<noteq> rearNode (queue t))"
proof -
  let ?cs = "[Push 1 10, Push 2 20, Push 3 30, Pop]"
  have ok: "allocator_ok ?cs Queue_ctor"
    by (simp add: push_def pop_def Queue_ctor_def LinkedList_ctor_def Let_def)
  have p: "pushes ?cs = 3" by (simp add: pushes_def)
  have q: "successful_pops ?cs Queue_ctor = 1"
    by (simp add: push_def pop_def Queue_ctor_def LinkedList_ctor_def Let_def)
  from chain_structure [OF ok] obtain rs t where
    e: "exec ?cs Queue_ctor = Inr (rs, t)" and
    imp: "0 <s count (queue t) \<and> pushes ?cs - successful_pops ?cs Queue_ctor < 2 ^ 31 \<longrightarrow>
              follow (heap t) (frontNode (queue t)) (nat (sint (count (queue t))) - 1)
                = rearNode (queue t) \<and>
              (\<exists>r n. rearNode (queue t) = Some r \<and> heap t r = Some n \<and> next n = None) \<and>
              (\<forall>k < nat (sint (count (queue t))) - 1.
                 follow (heap t) (frontNode (queue t)) k \<noteq> rearNode (queue t))"
    by blast
  from e have c: "count (queue t) = 2"
    by (auto simp: push_def pop_def Queue_ctor_def LinkedList_ctor_def Let_def)
  from imp have "follow (heap t) (frontNode (queue t)) 1 = rearNode (queue t) \<and>
      follow (heap t) (frontNode (queue t)) 0 \<noteq> rearNode (queue t)"
    unfolding p q c by (simp add: word_sless_alt)
  with ok e c show ?thesis by blast
qed

text \<open>
  The bound is needed: after \<open>2^32 + 1\<close> pushes and no pop, \<open>count\<close> is \<open>1\<close>, and
  following \<open>count - 1 = 0\<close> links from \<open>frontNode\<close> gives the first node, not the last.
\<close>

theorem chain_structure_counterexample:
  "allocator_ok (push_seq 4294967297) Queue_ctor \<and>
   (\<exists>rs t. exec (push_seq 4294967297) Queue_ctor = Inr (rs, t) \<and>
      count (queue t) = 1 \<and> 0 <s count (queue t) \<and>
      follow (heap t) (frontNode (queue t)) (nat (sint (count (queue t))) - 1) = Some 0 \<and>
      rearNode (queue t) = Some 4294967296)"
proof -
  from push_seq_state [of 4294967297] obtain t where
    "exec (push_seq 4294967297) Queue_ctor = Inr (replicate 4294967297 None, t)"
    "count (queue t) = of_nat 4294967297" "frontNode (queue t) = Some 0"
    "rearNode (queue t) = Some (4294967297 - 1)" by auto
  then have "\<exists>rs t. exec (push_seq 4294967297) Queue_ctor = Inr (rs, t) \<and>
      count (queue t) = 1 \<and> 0 <s count (queue t) \<and>
      follow (heap t) (frontNode (queue t)) (nat (sint (count (queue t))) - 1) = Some 0 \<and>
      rearNode (queue t) = Some 4294967296"
    by (simp add: word_sless_alt)
  then show ?thesis
    by (simp only: push_seq_ok simp_thms)
qed

text \<open>
  C6 (effect of a successful pop), as amended.  In every state reached from the freshly
  constructed queue in which \<open>frontNode\<close> is not null, the head node is live and \<open>pop()\<close>
  returns its value, sets \<open>frontNode\<close> to its \<open>next\<close>, frees it, and executes \<open>count--\<close>:
  \<open>count\<close> becomes \<open>count - 1\<close> modulo \<open>2^32\<close>, which is exactly one less whenever \<open>count\<close> is
  not the least \<open>int\<close>, \<open>-2^31\<close>.  If the queue is not empty afterwards \<open>rearNode\<close> is
  unchanged; if it is empty \<open>rearNode\<close> is null as well, and then any following \<open>push\<close>
  sets both \<open>frontNode\<close> and \<open>rearNode\<close> to the new node.
\<close>

theorem pop_success_effect:
  assumes "allocator_ok cs Queue_ctor"
  shows "\<exists>rs t. exec cs Queue_ctor = Inr (rs, t) \<and>
           (frontNode (queue t) \<noteq> None \<longrightarrow>
              (\<exists>p n t'. frontNode (queue t) = Some p \<and> heap t p = Some n \<and>
                 pop t = Inr (val n, t') \<and>
                 frontNode (queue t') = next n \<and>
                 count (queue t') = count (queue t) - 1 \<and>
                 (count (queue t) \<noteq> - 2147483648 \<longrightarrow>
                    sint (count (queue t')) = sint (count (queue t)) - 1) \<and>
                 heap t' = (heap t)(p := None) \<and>
                 cout t' = cout t \<and>
                 (frontNode (queue t') \<noteq> None \<longrightarrow> rearNode (queue t') = rearNode (queue t)) \<and>
                 (frontNode (queue t') = None \<longrightarrow>
                    rearNode (queue t') = None \<and>
                    (\<forall>a v. \<exists>u. push a v t' = Inr u \<and>
                       frontNode (queue u) = Some a \<and> rearNode (queue u) = Some a \<and>
                       heap u a = Some (LinkedList_ctor v) \<and>
                       count (queue u) = count (queue t)))))"
proof -
  from run_inv [OF assms] obtain rs t xs where
    e: "exec cs Queue_ctor = Inr (rs, t)" and I: "queue_inv t xs"
    by blast
  have main: "\<exists>p n t'. frontNode (queue t) = Some p \<and> heap t p = Some n \<and>
                 pop t = Inr (val n, t') \<and>
                 frontNode (queue t') = next n \<and>
                 count (queue t') = count (queue t) - 1 \<and>
                 (count (queue t) \<noteq> - 2147483648 \<longrightarrow>
                    sint (count (queue t')) = sint (count (queue t)) - 1) \<and>
                 heap t' = (heap t)(p := None) \<and>
                 cout t' = cout t \<and>
                 (frontNode (queue t') \<noteq> None \<longrightarrow> rearNode (queue t') = rearNode (queue t)) \<and>
                 (frontNode (queue t') = None \<longrightarrow>
                    rearNode (queue t') = None \<and>
                    (\<forall>a v. \<exists>u. push a v t' = Inr u \<and>
                       frontNode (queue u) = Some a \<and> rearNode (queue u) = Some a \<and>
                       heap u a = Some (LinkedList_ctor v) \<and>
                       count (queue u) = count (queue t)))"
    if ne: "frontNode (queue t) \<noteq> None"
  proof -
    from queue_inv_head [OF I ne] obtain p n where
      f: "frontNode (queue t) = Some p" and n: "heap t p = Some n" by blast
    define t' where "t' = t\<lparr>heap := (heap t)(p := None),
      queue := \<lparr>frontNode = next n,
                rearNode = (if next n = None then None else rearNode (queue t)),
                count = count (queue t) - 1\<rparr>\<rparr>"
    have pp: "pop t = Inr (val n, t')"
      using f n by (simp add: pop_def t'_def Let_def)
    have "\<exists>u. push a v t' = Inr u \<and>
             frontNode (queue u) = Some a \<and> rearNode (queue u) = Some a \<and>
             heap u a = Some (LinkedList_ctor v) \<and> count (queue u) = count (queue t)"
      if "frontNode (queue t') = None" for a v
      using that by (simp add: push_def t'_def)
    then show ?thesis
      using f n pp by (intro exI [of _ p] exI [of _ n] exI [of _ t']) (simp add: t'_def sint_dec)
  qed
  show ?thesis
    by (intro exI [of _ rs] exI [of _ t] conjI e impI) (rule main)
qed

theorem pop_success_effect_witness:
  "allocator_ok [Push 1 10] Queue_ctor \<and>
   (\<exists>rs t t' u. exec [Push 1 10] Queue_ctor = Inr (rs, t) \<and>
      frontNode (queue t) = Some 1 \<and> rearNode (queue t) = Some 1 \<and> count (queue t) = 1 \<and>
      pop t = Inr (10, t') \<and>
      frontNode (queue t') = None \<and> rearNode (queue t') = None \<and> count (queue t') = 0 \<and>
      sint (count (queue t')) = sint (count (queue t)) - 1 \<and>
      push 2 20 t' = Inr u \<and> frontNode (queue u) = Some 2 \<and> rearNode (queue u) = Some 2) \<and>
   allocator_ok [Push 1 10, Push 2 20] Queue_ctor \<and>
   (\<exists>rs t t'. exec [Push 1 10, Push 2 20] Queue_ctor = Inr (rs, t) \<and>
      frontNode (queue t) = Some 1 \<and> rearNode (queue t) = Some 2 \<and> count (queue t) = 2 \<and>
      pop t = Inr (10, t') \<and>
      frontNode (queue t') = Some 2 \<and> rearNode (queue t') = Some 2 \<and> count (queue t') = 1)"
proof -
  have ok: "allocator_ok [Push 1 10] Queue_ctor"
    by (simp add: push_def Queue_ctor_def LinkedList_ctor_def)
  from pop_success_effect [OF ok] obtain rs t where
    e: "exec [Push 1 10] Queue_ctor = Inr (rs, t)" and
    imp: "frontNode (queue t) \<noteq> None \<longrightarrow>
              (\<exists>p n t'. frontNode (queue t) = Some p \<and> heap t p = Some n \<and>
                 pop t = Inr (val n, t') \<and>
                 frontNode (queue t') = next n \<and>
                 count (queue t') = count (queue t) - 1 \<and>
                 (count (queue t) \<noteq> - 2147483648 \<longrightarrow>
                    sint (count (queue t')) = sint (count (queue t)) - 1) \<and>
                 heap t' = (heap t)(p := None) \<and>
                 cout t' = cout t \<and>
                 (frontNode (queue t') \<noteq> None \<longrightarrow> rearNode (queue t') = rearNode (queue t)) \<and>
                 (frontNode (queue t') = None \<longrightarrow>
                    rearNode (queue t') = None \<and>
                    (\<forall>a v. \<exists>u. push a v t' = Inr u \<and>
                       frontNode (queue u) = Some a \<and> rearNode (queue u) = Some a \<and>
                       heap u a = Some (LinkedList_ctor v) \<and>
                       count (queue u) = count (queue t))))"
    by (elim exE conjE) (rule that)
  from e have t: "frontNode (queue t) = Some 1" "rearNode (queue t) = Some 1"
    "count (queue t) = 1" "heap t 1 = Some \<lparr>val = 10, next = None\<rparr>"
    by (auto simp: push_def Queue_ctor_def LinkedList_ctor_def)
  with imp obtain t' where
    p: "pop t = Inr (10, t')" "frontNode (queue t') = None" "count (queue t') = 0"
      "sint (count (queue t')) = sint (count (queue t)) - 1"
    and r: "frontNode (queue t') = None \<longrightarrow>
                    rearNode (queue t') = None \<and>
                    (\<forall>a v. \<exists>u. push a v t' = Inr u \<and>
                       frontNode (queue u) = Some a \<and> rearNode (queue u) = Some a \<and>
                       heap u a = Some (LinkedList_ctor v) \<and>
                       count (queue u) = count (queue t))"
    by auto
  from r p(2) have r1: "rearNode (queue t') = None" by simp
  from r p(2) obtain u where "push 2 20 t' = Inr u" "frontNode (queue u) = Some 2"
    "rearNode (queue u) = Some 2" by blast
  with e t p r1 have one: "\<exists>rs t t' u. exec [Push 1 10] Queue_ctor = Inr (rs, t) \<and>
      frontNode (queue t) = Some 1 \<and> rearNode (queue t) = Some 1 \<and> count (queue t) = 1 \<and>
      pop t = Inr (10, t') \<and>
      frontNode (queue t') = None \<and> rearNode (queue t') = None \<and> count (queue t') = 0 \<and>
      sint (count (queue t')) = sint (count (queue t)) - 1 \<and>
      push 2 20 t' = Inr u \<and> frontNode (queue u) = Some 2 \<and> rearNode (queue u) = Some 2"
    by blast
  have ok2: "allocator_ok [Push 1 10, Push 2 20] Queue_ctor"
    by (simp add: push_def Queue_ctor_def LinkedList_ctor_def)
  from pop_success_effect [OF ok2] obtain rs2 t2 where
    e2: "exec [Push 1 10, Push 2 20] Queue_ctor = Inr (rs2, t2)" and
    imp2: "frontNode (queue t2) \<noteq> None \<longrightarrow>
              (\<exists>p n t'. frontNode (queue t2) = Some p \<and> heap t2 p = Some n \<and>
                 pop t2 = Inr (val n, t') \<and>
                 frontNode (queue t') = next n \<and>
                 count (queue t') = count (queue t2) - 1 \<and>
                 (count (queue t2) \<noteq> - 2147483648 \<longrightarrow>
                    sint (count (queue t')) = sint (count (queue t2)) - 1) \<and>
                 heap t' = (heap t2)(p := None) \<and>
                 cout t' = cout t2 \<and>
                 (frontNode (queue t') \<noteq> None \<longrightarrow> rearNode (queue t') = rearNode (queue t2)) \<and>
                 (frontNode (queue t') = None \<longrightarrow>
                    rearNode (queue t') = None \<and>
                    (\<forall>a v. \<exists>u. push a v t' = Inr u \<and>
                       frontNode (queue u) = Some a \<and> rearNode (queue u) = Some a \<and>
                       heap u a = Some (LinkedList_ctor v) \<and>
                       count (queue u) = count (queue t2))))"
    by (elim exE conjE) (rule that)
  from e2 have t2: "frontNode (queue t2) = Some 1" "rearNode (queue t2) = Some 2"
    "count (queue t2) = 2" "heap t2 1 = Some \<lparr>val = 10, next = Some 2\<rparr>"
    by (auto simp: push_def Queue_ctor_def LinkedList_ctor_def)
  with imp2 obtain t2' where
    "pop t2 = Inr (10, t2')" "frontNode (queue t2') = Some 2" "count (queue t2') = 1"
    "rearNode (queue t2') = Some 2"
    by auto
  with e2 t2 have two: "\<exists>rs t t'. exec [Push 1 10, Push 2 20] Queue_ctor = Inr (rs, t) \<and>
      frontNode (queue t) = Some 1 \<and> rearNode (queue t) = Some 2 \<and> count (queue t) = 2 \<and>
      pop t = Inr (10, t') \<and>
      frontNode (queue t') = Some 2 \<and> rearNode (queue t') = Some 2 \<and> count (queue t') = 1"
    by blast
  from ok one ok2 two show ?thesis by (intro conjI)
qed

text \<open>
  The restriction is needed: after \<open>2^31\<close> pushes and no pop \<open>count\<close> is \<open>-2^31\<close>, and the
  (successful) \<open>pop()\<close> takes it to \<open>2^31 - 1\<close>, not to one less.
\<close>

theorem pop_success_effect_counterexample:
  "allocator_ok (push_seq 2147483648) Queue_ctor \<and>
   (\<exists>rs t r t'. exec (push_seq 2147483648) Queue_ctor = Inr (rs, t) \<and>
      frontNode (queue t) = Some 0 \<and> pop t = Inr (r, t') \<and>
      sint (count (queue t)) = - 2147483648 \<and>
      sint (count (queue t')) = 2147483647)"
proof -
  from push_seq_pop [of 2147483648] obtain t t' where
    "exec (push_seq 2147483648) Queue_ctor = Inr (replicate 2147483648 None, t)"
    "frontNode (queue t) = Some 0" "count (queue t) = of_nat 2147483648"
    "pop t = Inr (0, t')" "count (queue t') = of_nat (2147483648 - 1)"
    by auto
  then have "\<exists>rs t r t'. exec (push_seq 2147483648) Queue_ctor = Inr (rs, t) \<and>
      frontNode (queue t) = Some 0 \<and> pop t = Inr (r, t') \<and>
      sint (count (queue t)) = - 2147483648 \<and>
      sint (count (queue t')) = 2147483647"
    by simp
  then show ?thesis
    by (simp only: push_seq_ok simp_thms)
qed

text \<open>
  C7 (error atomicity).  On a queue whose \<open>frontNode\<close> is null, \<open>pop()\<close> and \<open>front()\<close>
  leave the heap and the queue object (\<open>frontNode\<close>, \<open>rearNode\<close>, \<open>count\<close>) unchanged; the only
  effect is the line printed to the standard output.
\<close>

theorem error_atomicity:
  assumes "frontNode (queue s) = None"
  shows "(\<exists>r t. pop s = Inr (r, t) \<and> heap t = heap s \<and> queue t = queue s \<and>
            cout t = cout s @ empty_msg) \<and>
         (\<exists>r t. front s = Inr (r, t) \<and> heap t = heap s \<and> queue t = queue s \<and>
            cout t = cout s @ empty_msg)"
  using assms by (simp add: pop_empty front_empty)

theorem error_atomicity_witness:
  "frontNode (queue Queue_ctor) = None \<and>
   (\<exists>r t. pop Queue_ctor = Inr (r, t) \<and> heap t = Map.empty \<and>
      queue t = \<lparr>frontNode = None, rearNode = None, count = 0\<rparr> \<and> cout t = empty_msg) \<and>
   (\<exists>r t. front Queue_ctor = Inr (r, t) \<and> heap t = Map.empty \<and>
      queue t = \<lparr>frontNode = None, rearNode = None, count = 0\<rparr> \<and> cout t = empty_msg)"
proof -
  have e: "frontNode (queue Queue_ctor) = None" by (simp add: Queue_ctor_def)
  from error_atomicity [OF e] e show ?thesis by (simp add: Queue_ctor_def)
qed

text \<open>
  C8 (teardown).  After every run of calls on a freshly constructed queue, the nodes
  reachable from \<open>frontNode\<close> form a chain \<open>xs\<close> of pairwise distinct live cells, which are
  all the live cells, one per element held.  The destructor terminates without fault,
  passes exactly the addresses of \<open>xs\<close> to \<open>delete\<close>, each once and in order from the
  head, and leaves no live cell.
\<close>

theorem teardown_releases_all:
  assumes "allocator_ok cs Queue_ctor"
  shows "\<exists>rs t xs t'. exec cs Queue_ctor = Inr (rs, t) \<and>
           chain (heap t) (frontNode (queue t)) xs \<and>
           distinct (map fst xs) \<and>
           dom (heap t) = set (map fst xs) \<and>
           length xs = pushes cs - successful_pops cs Queue_ctor \<and>
           Queue_dtor t = Some (Inr (map fst xs, t')) \<and>
           heap t' = Map.empty \<and> frontNode (queue t') = None"
proof -
  from run_inv [OF assms] obtain rs t xs where
    e: "exec cs Queue_ctor = Inr (rs, t)" and I: "queue_inv t xs"
    and len: "length xs = pushes cs - successful_pops cs Queue_ctor"
    by blast
  from I have ch: "chain (heap t) (frontNode (queue t)) xs"
    and d: "distinct (map fst xs)" and dm: "dom (heap t) = set (map fst xs)"
    by (simp_all add: queue_inv_def)
  from dtor_loop_chain [OF ch d, of "[]"] obtain t' where
    r: "Queue_dtor t = Some (Inr (map fst xs, t'))"
    and h: "heap t' = (\<lambda>a. if a \<in> set (map fst xs) then None else heap t a)"
    and f: "frontNode (queue t') = None"
    by (auto simp: Queue_dtor_def)
  have "heap t' a = None" for a
    using h dm by (cases "a \<in> set (map fst xs)") (auto simp: domIff)
  then have "heap t' = Map.empty" by (simp add: fun_eq_iff)
  with e ch d dm len r f show ?thesis by blast
qed

theorem teardown_releases_all_witness:
  "allocator_ok [Push 1 10, Push 2 20, Push 3 30, Pop] Queue_ctor \<and>
   (\<exists>rs t t'. exec [Push 1 10, Push 2 20, Push 3 30, Pop] Queue_ctor = Inr (rs, t) \<and>
      chain (heap t) (frontNode (queue t)) [(2, 20), (3, 30)] \<and>
      Queue_dtor t = Some (Inr ([2, 3], t')) \<and> heap t' = Map.empty)"
proof -
  let ?cs = "[Push 1 10, Push 2 20, Push 3 30, Pop]"
  have ok: "allocator_ok ?cs Queue_ctor"
    by (simp add: push_def pop_def Queue_ctor_def LinkedList_ctor_def Let_def)
  from teardown_releases_all [OF ok] obtain rs t xs t' where
    e: "exec ?cs Queue_ctor = Inr (rs, t)"
    and ch: "chain (heap t) (frontNode (queue t)) xs"
    and r: "Queue_dtor t = Some (Inr (map fst xs, t'))" and h: "heap t' = Map.empty"
    by blast
  from e have c2: "chain (heap t) (frontNode (queue t)) [(2, 20), (3, 30)]"
    by (auto simp: push_def pop_def Queue_ctor_def LinkedList_ctor_def Let_def)
  have "xs = [(2, 20), (3, 30)]" by (rule chain_unique [OF ch c2])
  with ok e c2 r h show ?thesis by auto
qed

text \<open>
  C9 (sentinel collision).  \<open>pop()\<close> and \<open>front()\<close> on an empty queue return \<open>-1\<close>, and so
  do a successful \<open>pop()\<close> and \<open>front()\<close> on a queue whose front element is \<open>-1\<close>: the
  returned integers are the same.
\<close>

theorem sentinel_collision:
  assumes "frontNode (queue s) = None"
    and "frontNode (queue s') = Some p" and "heap s' p = Some n" and "val n = - 1"
  shows "(\<exists>t t'. pop s = Inr (- 1, t) \<and> pop s' = Inr (- 1, t')) \<and>
         (\<exists>t t'. front s = Inr (- 1, t) \<and> front s' = Inr (- 1, t'))"
  using assms by (simp add: pop_def front_def Let_def)

theorem sentinel_collision_witness:
  "exec [Push 7 (- 1)] Queue_ctor =
     Inr ([None], \<lparr>heap = [7 \<mapsto> \<lparr>val = - 1, next = None\<rparr>],
                   queue = \<lparr>frontNode = Some 7, rearNode = Some 7, count = 1\<rparr>,
                   cout = []\<rparr>) \<and>
   (\<exists>t t'. pop Queue_ctor = Inr (- 1, t) \<and>
      pop \<lparr>heap = [7 \<mapsto> \<lparr>val = - 1, next = None\<rparr>],
           queue = \<lparr>frontNode = Some 7, rearNode = Some 7, count = 1\<rparr>,
           cout = []\<rparr> = Inr (- 1, t')) \<and>
   (\<exists>t t'. front Queue_ctor = Inr (- 1, t) \<and>
      front \<lparr>heap = [7 \<mapsto> \<lparr>val = - 1, next = None\<rparr>],
             queue = \<lparr>frontNode = Some 7, rearNode = Some 7, count = 1\<rparr>,
             cout = []\<rparr> = Inr (- 1, t'))"
proof -
  let ?s' = "\<lparr>heap = [7 \<mapsto> \<lparr>val = - 1 :: cint, next = None\<rparr>],
             queue = \<lparr>frontNode = Some 7, rearNode = Some 7, count = 1\<rparr>,
             cout = []\<rparr>"
  have 1: "frontNode (queue Queue_ctor) = None" by (simp add: Queue_ctor_def)
  have 2: "frontNode (queue ?s') = Some 7" by simp
  have 3: "heap ?s' 7 = Some \<lparr>val = - 1, next = None\<rparr>" by simp
  have 4: "val \<lparr>val = - 1 :: cint, next = None\<rparr> = - 1" by simp
  have 5: "exec [Push 7 (- 1)] Queue_ctor = Inr ([None], ?s')"
    by (simp add: push_def Queue_ctor_def LinkedList_ctor_def)
  from sentinel_collision [OF 1 2 3 4] 5 show ?thesis by simp
qed

text \<open>
  C10 (front/pop agreement).  In every state reached from the freshly constructed queue
  in which \<open>frontNode\<close> is not null, \<open>front()\<close> returns the value that \<open>pop()\<close> returns on
  the same state and leaves the state unchanged; so \<open>k\<close> calls of \<open>front()\<close> followed by
  \<open>pop()\<close> return that value \<open>k + 1\<close> times and end in the state of the \<open>pop()\<close> alone.
\<close>

theorem front_pop_agreement:
  assumes "allocator_ok cs Queue_ctor"
  shows "\<exists>rs t. exec cs Queue_ctor = Inr (rs, t) \<and>
           (frontNode (queue t) \<noteq> None \<longrightarrow>
              (\<exists>v t'. front t = Inr (v, t) \<and> pop t = Inr (v, t') \<and>
                 exec (replicate k Front @ [Pop]) t = Inr (replicate k (Some v) @ [Some v], t')))"
proof -
  from run_inv [OF assms] obtain rs t xs where
    e: "exec cs Queue_ctor = Inr (rs, t)" and I: "queue_inv t xs"
    by blast
  have main: "\<exists>v t'. front t = Inr (v, t) \<and> pop t = Inr (v, t') \<and>
                 exec (replicate k Front @ [Pop]) t = Inr (replicate k (Some v) @ [Some v], t')"
    if ne: "frontNode (queue t) \<noteq> None"
  proof -
    from queue_inv_facts(1) [OF I] ne obtain x ys where xs: "xs = x # ys"
      by (cases xs) auto
    obtain p v where x: "x = (p, v)" by (cases x)
    from front_inv [of t p v ys] I have f: "front t = Inr (v, t)" by (simp add: xs x)
    from pop_inv [of t p v ys] I obtain t' where p: "pop t = Inr (v, t')" by (auto simp: xs x)
    from f p show ?thesis by (simp add: exec_fronts [OF f])
  qed
  show ?thesis
    by (intro exI [of _ rs] exI [of _ t] conjI e impI) (rule main)
qed

theorem front_pop_agreement_witness:
  "allocator_ok [Push 1 10, Push 2 20, Push 3 30] Queue_ctor \<and>
   (\<exists>rs t t'. exec [Push 1 10, Push 2 20, Push 3 30] Queue_ctor = Inr (rs, t) \<and>
      frontNode (queue t) = Some 1 \<and> front t = Inr (10, t) \<and> pop t = Inr (10, t') \<and>
      exec [Front, Front, Pop] t = Inr ([Some 10, Some 10, Some 10], t'))"
proof -
  let ?cs = "[Push 1 10, Push 2 20, Push 3 30]"
  have ok: "allocator_ok ?cs Queue_ctor"
    by (simp add: push_def Queue_ctor_def LinkedList_ctor_def)
  from front_pop_agreement [OF ok, of 2] obtain rs t where
    e: "exec ?cs Queue_ctor = Inr (rs, t)" and
    imp: "frontNode (queue t) \<noteq> None \<longrightarrow>
              (\<exists>v t'. front t = Inr (v, t) \<and> pop t = Inr (v, t') \<and>
                 exec (replicate 2 Front @ [Pop]) t = Inr (replicate 2 (Some v) @ [Some v], t'))"
    by (elim exE conjE) (rule that)
  from e have t: "frontNode (queue t) = Some 1" "heap t 1 = Some \<lparr>val = 10, next = Some 2\<rparr>"
    by (auto simp: push_def Queue_ctor_def LinkedList_ctor_def)
  then have f: "front t = Inr (10, t)" by (simp add: front_def)
  from imp t(1) f obtain t' where "pop t = Inr (10, t')"
    "exec (replicate 2 Front @ [Pop]) t = Inr (replicate 2 (Some 10) @ [Some 10], t')"
    by auto
  then have "pop t = Inr (10, t') \<and> exec [Front, Front, Pop] t = Inr ([Some 10, Some 10, Some 10], t')"
    by (simp add: numeral_2_eq_2)
  with ok e t(1) f show ?thesis by blast
qed

end
